theory Spec2Isabelle
  imports Complex_Main "HOL-Library.Word" "HOL-Library.Multiset"
begin

unbundle bit_operations_syntax

section \<open>The stepper motor controller of steppermotors.py\<close>

text \<open>
  The module drives a Portescap 20MO20DIU stepper motor through four digital outputs of a
  LabJack U12. The LabJack driver (\<open>labjacku12\<close>), \<open>time.sleep\<close> and the exception class
  \<open>Error\<close> are imported by the module. Every call that leaves the module is recorded, in
  order, as an event; the value \<open>check_connection\<close> returns is an input of the model, and
  the driver's calls are taken to return. Python's integers are \<open>int\<close>; the delays, floats
  in Python, are \<open>real\<close>.
\<close>

subsection \<open>Exceptions and calls to the outside\<close>

text \<open>
  \<open>Error\<close> is the class the constructor raises, with its message. \<open>IndexError\<close> is what
  \<open>states[0]\<close> and \<open>states.pop\<close> raise on an empty list, \<open>ValueError\<close> what \<open><<\<close> raises on a
  negative shift count and \<open>time.sleep\<close> on a negative duration, \<open>OverflowError\<close> and
  \<open>OSError\<close> what \<open>time.sleep\<close> raises on a duration that is too long.
\<close>

datatype error = Error string | IndexError | ValueError | OverflowError | OSError

datatype event =
    Check_connection
  | Set_DIO_to_output int int
  | Write_to_DIO int int
  | Sleep real


fun is_set_DIO :: "event \<Rightarrow> bool" where
  "is_set_DIO (Set_DIO_to_output m v) = True"
| "is_set_DIO _ = False"

text \<open>
  Python's \<open>x << n\<close> on unbounded integers. The class comment gives 0 to 3 for the nibble;
  a count so large that the interpreter cannot hold the result is outside the model.
\<close>

definition lshift :: "int \<Rightarrow> int \<Rightarrow> error + int" where
  "lshift x n = (if n < 0 then Inl ValueError else Inr (push_bit (nat n) x))"

text \<open>
  \<open>time.sleep(t)\<close>, as CPython 3.11 does it. The duration is converted to a signed 64-bit
  count of nanoseconds, rounded away from zero, and \<open>OverflowError\<close> is raised when the count
  does not fit; a negative count raises \<open>ValueError\<close>; then the operating system's sleep is
  called, which refuses with \<open>OSError\<close> a duration that carries its clock past its own
  limit. That limit depends on the machine and on how long it has been up: \<open>os_max\<close>, the
  longest count of nanoseconds the operating system accepts, is an input of the model,
  taken as fixed during the calls modelled. A delay is a real number here, so Python's
  \<open>inf\<close> and \<open>nan\<close> have no counterpart.
\<close>

definition nanoseconds :: "real \<Rightarrow> int" where
  "nanoseconds t = (if 0 \<le> t then \<lceil>t * 10 ^ 9\<rceil> else \<lfloor>t * 10 ^ 9\<rfloor>)"

definition sleep :: "nat \<Rightarrow> real \<Rightarrow> error + event" where
  "sleep os_max t =
     (let ns = nanoseconds t in
      if ns < - (2 ^ 63) \<or> 2 ^ 63 \<le> ns then Inl OverflowError
      else if ns < 0 then Inl ValueError
      else if int os_max < ns then Inl OSError
      else Inr (Sleep t))"

text \<open>The longest duration, in seconds, that \<open>time.sleep\<close> accepts.\<close>

definition sleep_max :: "nat \<Rightarrow> real" where
  "sleep_max os_max = real (min os_max (2 ^ 63 - 1)) / 10 ^ 9"

text \<open>\<open>range(steps)\<close>: empty when \<open>steps \<le> 0\<close>.\<close>

definition range_py :: "int \<Rightarrow> int list" where
  "range_py n = [0..n - 1]"

subsection \<open>The class\<close>

record Portescap20MO20DIU =
  nibble :: int
  step_time :: real
  settle_time :: real
  states :: "int list"
  off :: int

definition not_responding :: string where
  "not_responding =
     ''The LabJack used to control the Portescap 20MO20DIU stepper motor is not responding.''"

text \<open>
  The constructor. \<open>conn\<close> is what \<open>labjacku12.check_connection()\<close> returns and
  \<open>power_transistors\<close> the module-level flag. The result is the calls made and either the
  exception raised or the object.
\<close>

definition init ::
  "int \<Rightarrow> string \<Rightarrow> int \<Rightarrow> real \<Rightarrow> real \<Rightarrow> event list \<times> (error + Portescap20MO20DIU)" where
  "init conn power_transistors nib step_t settle_t =
     (if conn = 0 then ([Check_connection], Inl (Error not_responding))
      else case lshift 0xf (4 * nib) of
        Inl e \<Rightarrow> ([Check_connection], Inl e)
      | Inr Outputs \<Rightarrow>
         (case lshift 0xf (4 * nib) of
            Inl e \<Rightarrow> ([Check_connection], Inl e)
          | Inr InitialValue \<Rightarrow>
             ([Check_connection, Set_DIO_to_output Outputs InitialValue],
              Inr (if power_transistors = ''ptype''
                   then \<lparr>nibble = nib, step_time = step_t, settle_time = settle_t,
                         states = [0x9, 0x5, 0x6, 0xa], off = 0xf\<rparr>
                   else \<lparr>nibble = nib, step_time = step_t, settle_time = settle_t,
                         states = [0x6, 0xa, 0x9, 0x5], off = 0x0\<rparr>))))"

text \<open>
  The arguments of \<open>write_to_DIO(pattern << (4 * self.nibble), 0xf << (4 * self.nibble))\<close>,
  evaluated left to right.
\<close>

definition write_to_DIO :: "int \<Rightarrow> int \<Rightarrow> error + event" where
  "write_to_DIO pattern nib =
     (case lshift pattern (4 * nib) of
        Inl e \<Rightarrow> Inl e
      | Inr v \<Rightarrow> (case lshift 0xf (4 * nib) of
                   Inl e \<Rightarrow> Inl e
                 | Inr m \<Rightarrow> Inr (Write_to_DIO v m)))"

text \<open>Energize the state at the head of the list: \<open>self.states[0]\<close> is read first.\<close>

definition energize :: "Portescap20MO20DIU \<Rightarrow> error + event" where
  "energize c =
     (case states c of
        [] \<Rightarrow> Inl IndexError
      | s # rest \<Rightarrow> write_to_DIO s (nibble c))"

text \<open>\<open>self.states.append(self.states.pop(0))\<close>\<close>

definition rotate_clockwise :: "int list \<Rightarrow> error + int list" where
  "rotate_clockwise xs = (case xs of [] \<Rightarrow> Inl IndexError | x # rest \<Rightarrow> Inr (rest @ [x]))"

text \<open>\<open>self.states.insert(0, self.states.pop())\<close>\<close>

definition rotate_counterclockwise :: "int list \<Rightarrow> error + int list" where
  "rotate_counterclockwise xs =
     (if xs = [] then Inl IndexError else Inr (last xs # butlast xs))"

text \<open>
  A method returns the object as it has left it, the calls it has made and the exception it
  has raised, if any: the list is mutated in place, so a rotation done before an exception
  stays done.

  The two stepping methods differ in the rotation only, which is the parameter \<open>rot\<close> of
  the loop and of the method body.
\<close>

type_synonym outcome = "Portescap20MO20DIU \<times> event list \<times> error option"

fun step_loop ::
  "nat \<Rightarrow> (int list \<Rightarrow> error + int list) \<Rightarrow> int list \<Rightarrow> Portescap20MO20DIU \<Rightarrow> outcome"
  where
  "step_loop os_max rot [] c = (c, [], None)"
| "step_loop os_max rot (i # rest) c =
     (case rot (states c) of
        Inl e \<Rightarrow> (c, [], Some e)
      | Inr xs \<Rightarrow>
         (let c1 = c\<lparr>states := xs\<rparr> in
          case energize c1 of
            Inl e \<Rightarrow> (c1, [], Some e)
          | Inr w \<Rightarrow>
             (case sleep os_max (step_time c1) of
                Inl e \<Rightarrow> (c1, [w], Some e)
              | Inr d \<Rightarrow>
                 (case step_loop os_max rot rest c1 of
                    (c2, tr, r) \<Rightarrow> (c2, w # d # tr, r)))))"

definition step ::
  "nat \<Rightarrow> (int list \<Rightarrow> error + int list) \<Rightarrow> int \<Rightarrow> Portescap20MO20DIU \<Rightarrow> outcome" where
  "step os_max rot steps c =
     (case energize c of
        Inl e \<Rightarrow> (c, [], Some e)
      | Inr w \<Rightarrow>
         (case step_loop os_max rot (range_py steps) c of
            (c1, tr, Some e) \<Rightarrow> (c1, w # tr, Some e)
          | (c1, tr, None) \<Rightarrow>
             (case sleep os_max (settle_time c1) of
                Inl e \<Rightarrow> (c1, w # tr, Some e)
              | Inr d \<Rightarrow>
                 (case write_to_DIO (off c1) (nibble c1) of
                    Inl e \<Rightarrow> (c1, w # tr @ [d], Some e)
                  | Inr w_off \<Rightarrow> (c1, w # tr @ [d, w_off], None)))))"

definition step_clockwise :: "nat \<Rightarrow> int \<Rightarrow> Portescap20MO20DIU \<Rightarrow> outcome" where
  "step_clockwise os_max steps c = step os_max rotate_clockwise steps c"

definition step_counterclockwise :: "nat \<Rightarrow> int \<Rightarrow> Portescap20MO20DIU \<Rightarrow> outcome" where
  "step_counterclockwise os_max steps c = step os_max rotate_counterclockwise steps c"

definition turn_power_off :: "Portescap20MO20DIU \<Rightarrow> outcome" where
  "turn_power_off c =
     (case write_to_DIO (off c) (nibble c) of
        Inl e \<Rightarrow> (c, [], Some e)
      | Inr w_off \<Rightarrow> (c, [w_off], None))"

subsection \<open>Sequences of method calls\<close>

datatype call = Step_clockwise int | Step_counterclockwise int | Turn_power_off

fun do_call :: "nat \<Rightarrow> call \<Rightarrow> Portescap20MO20DIU \<Rightarrow> outcome" where
  "do_call os_max (Step_clockwise n) c = step_clockwise os_max n c"
| "do_call os_max (Step_counterclockwise n) c = step_counterclockwise os_max n c"
| "do_call os_max Turn_power_off c = turn_power_off c"

text \<open>
  A sequence of calls on one object, with everything it has sent out. A caller may catch an
  exception and keep using the object, so the sequence goes on after a call that has
  raised; what a script stopped by its first exception has done is what the sequence up
  to that call does.
\<close>

fun do_calls ::
  "nat \<Rightarrow> call list \<Rightarrow> Portescap20MO20DIU \<Rightarrow> Portescap20MO20DIU \<times> event list" where
  "do_calls os_max [] c = (c, [])"
| "do_calls os_max (x # xs) c =
     (case do_call os_max x c of
        (c1, tr, r) \<Rightarrow> (case do_calls os_max xs c1 of (c2, tr2) \<Rightarrow> (c2, tr @ tr2)))"


subsection \<open>The digital lines\<close>

text \<open>
  Modelled from the spec: the effect of the LabJack driver's \<open>write_to_DIO\<close> and
  \<open>set_DIO_to_output\<close> on the sixteen digital lines, which the module imports and does not
  define. The spec's device contract: a write drives each line whose bit is set in the
  mask to the corresponding bit of the value and leaves the other lines as they are;
  configuring outputs drives the lines of the output mask to the corresponding bits of the
  initial value and leaves the others as they are.
\<close>

definition drive :: "int \<Rightarrow> int \<Rightarrow> 16 word \<Rightarrow> 16 word" where
  "drive v m d = (d AND NOT (word_of_int m)) OR (word_of_int v AND word_of_int m)"

fun device_event :: "event \<Rightarrow> 16 word \<Rightarrow> 16 word" where
  "device_event (Write_to_DIO v m) d = drive v m d"
| "device_event (Set_DIO_to_output m v) d = drive v m d"
| "device_event Check_connection d = d"
| "device_event (Sleep t) d = d"

fun device_events :: "event list \<Rightarrow> 16 word \<Rightarrow> 16 word" where
  "device_events [] d = d"
| "device_events (e # es) d = device_events es (device_event e d)"

text \<open>
  What a method of a controller on nibble \<open>nib\<close> may send: a write under the nibble's mask
  \<open>0xf << (4 * nib)\<close>, or a sleep.
\<close>

definition own_event :: "int \<Rightarrow> event \<Rightarrow> bool" where
  "own_event nib e =
     (case e of
        Write_to_DIO v m \<Rightarrow> 0 \<le> nib \<and> m = push_bit (nat (4 * nib)) 0xf
      | Sleep t \<Rightarrow> True
      | Set_DIO_to_output m v \<Rightarrow> False
      | Check_connection \<Rightarrow> False)"

subsection \<open>Example objects\<close>

text \<open>A motor on the second nibble, as the constructor builds it for n-type transistors.\<close>

definition motor_1 :: Portescap20MO20DIU where
  "motor_1 = \<lparr>nibble = 1, step_time = 1 / 10, settle_time = 1 / 10,
              states = [0x6, 0xa, 0x9, 0x5], off = 0x0\<rparr>"

text \<open>A limit of the operating system's sleep, in nanoseconds: a little over 31 years.\<close>

definition os_max_1 :: nat where
  "os_max_1 = 10 ^ 18"

text \<open>A short script of calls.\<close>

definition script_1 :: "call list" where
  "script_1 = [Step_clockwise 3, Turn_power_off, Step_counterclockwise 1]"

section \<open>Auxiliary facts\<close>

lemma lshift_nonneg: "0 \<le> n \<Longrightarrow> lshift x n = Inr (push_bit (nat n) x)"
  by (simp add: lshift_def)

lemma write_to_DIO_nonneg:
  "0 \<le> nib \<Longrightarrow>
   write_to_DIO p nib =
     Inr (Write_to_DIO (push_bit (nat (4 * nib)) p) (push_bit (nat (4 * nib)) 0xf))"
  by (simp add: write_to_DIO_def lshift_def)

lemma write_to_DIO_neg: "nib < 0 \<Longrightarrow> write_to_DIO p nib = Inl ValueError"
  by (simp add: write_to_DIO_def lshift_def)

lemma write_to_DIO_Inr:
  "write_to_DIO p nib = Inr w \<Longrightarrow>
   0 \<le> nib \<and> w = Write_to_DIO (push_bit (nat (4 * nib)) p) (push_bit (nat (4 * nib)) 0xf)"
  by (cases "0 \<le> nib") (simp_all add: write_to_DIO_nonneg write_to_DIO_neg)

lemma energize_Inr:
  "energize c = Inr w \<Longrightarrow>
   0 \<le> nibble c \<and> states c \<noteq> [] \<and>
   w = Write_to_DIO (push_bit (nat (4 * nibble c)) (hd (states c)))
         (push_bit (nat (4 * nibble c)) 0xf)"
  by (auto simp: energize_def split: list.splits dest: write_to_DIO_Inr)


lemma nanoseconds_nonneg: "0 \<le> t \<Longrightarrow> nanoseconds t = \<lceil>t * 10 ^ 9\<rceil>"
  by (simp add: nanoseconds_def)

lemma nanoseconds_neg: "t < 0 \<Longrightarrow> nanoseconds t < 0"
proof -
  assume "t < 0"
  then have "t * 10 ^ 9 < 0" by (simp add: mult_less_0_iff)
  then have "\<lfloor>t * 10 ^ 9\<rfloor> < 0" by (simp add: floor_less_iff)
  with \<open>t < 0\<close> show ?thesis by (simp add: nanoseconds_def)
qed

lemma nanoseconds_le_iff: "0 \<le> t \<Longrightarrow> nanoseconds t \<le> int n \<longleftrightarrow> t * 10 ^ 9 \<le> real n"
  by (simp add: nanoseconds_nonneg ceiling_le_iff)

lemma le_sleep_max_iff:
  "t \<le> sleep_max os_max \<longleftrightarrow> t * 10 ^ 9 \<le> real os_max \<and> t * 10 ^ 9 \<le> real ((2::nat) ^ 63 - 1)"
proof -
  have "t \<le> sleep_max os_max \<longleftrightarrow> t * 10 ^ 9 \<le> real (min os_max (2 ^ 63 - 1))"
    by (simp add: sleep_max_def pos_le_divide_eq)
  also have "\<dots> \<longleftrightarrow> t * 10 ^ 9 \<le> min (real os_max) (real ((2::nat) ^ 63 - 1))"
    by (simp only: of_nat_min)
  finally show ?thesis by simp
qed

text \<open>The durations \<open>time.sleep\<close> accepts are those from 0 to \<open>sleep_max\<close>.\<close>

lemma sleep_Inr_iff:
  "sleep os_max t = Inr d \<longleftrightarrow> 0 \<le> t \<and> t \<le> sleep_max os_max \<and> d = Sleep t"
proof (cases "0 \<le> t")
  case False
  then have "nanoseconds t < 0" by (simp add: nanoseconds_neg)
  then have "sleep os_max t \<noteq> Inr d" by (auto simp: sleep_def Let_def)
  with False show ?thesis by simp
next
  case True
  have n0: "0 \<le> nanoseconds t"
    using True by (simp add: nanoseconds_nonneg)
  have a: "nanoseconds t \<le> int os_max \<longleftrightarrow> t * 10 ^ 9 \<le> real os_max"
    by (rule nanoseconds_le_iff [OF True])
  have "int ((2::nat) ^ 63 - 1) = 2 ^ 63 - 1" by simp
  then have "nanoseconds t < 2 ^ 63 \<longleftrightarrow> nanoseconds t \<le> int ((2::nat) ^ 63 - 1)"
    by linarith
  also have "\<dots> \<longleftrightarrow> t * 10 ^ 9 \<le> real ((2::nat) ^ 63 - 1)"
    by (rule nanoseconds_le_iff [OF True])
  finally have b: "nanoseconds t < 2 ^ 63 \<longleftrightarrow> t * 10 ^ 9 \<le> real ((2::nat) ^ 63 - 1)" .
  have s: "sleep os_max t = Inr d \<longleftrightarrow>
        nanoseconds t < 2 ^ 63 \<and> nanoseconds t \<le> int os_max \<and> d = Sleep t"
    using n0 by (auto simp: sleep_def Let_def)
  show ?thesis
    unfolding s a b le_sleep_max_iff using True by blast
qed

lemma sleep_Inr: "sleep os_max t = Inr d \<Longrightarrow> d = Sleep t"
  by (simp add: sleep_Inr_iff)

lemma sleep_ok: "0 \<le> t \<Longrightarrow> t \<le> sleep_max os_max \<Longrightarrow> sleep os_max t = Inr (Sleep t)"
  by (simp add: sleep_Inr_iff)

lemma sleep_max_nonneg: "0 \<le> sleep_max os_max"
  by (simp add: sleep_max_def)

lemma sleep_0: "sleep os_max 0 = Inr (Sleep 0)"
  by (simp add: sleep_ok sleep_max_nonneg)

lemma sleep_max_1: "1 / 10 \<le> sleep_max os_max_1"
  by (simp add: sleep_max_def os_max_1_def)

lemma sleep_tenth: "sleep os_max_1 (1 / 10) = Inr (Sleep (1 / 10))"
  by (rule sleep_ok [OF _ sleep_max_1]) simp

lemma sleep_Inl:
  "sleep os_max t = Inl e \<Longrightarrow> e = OverflowError \<or> e = ValueError \<or> e = OSError"
  by (auto simp: sleep_def Let_def split: if_splits)



lemma range_py_1: "range_py 1 = [0]"
  by (simp add: range_py_def)

lemma rotate_clockwise_mset: "rotate_clockwise xs = Inr ys \<Longrightarrow> mset ys = mset xs"
  by (auto simp: rotate_clockwise_def split: list.splits)

lemma rotate_counterclockwise_mset: "rotate_counterclockwise xs = Inr ys \<Longrightarrow> mset ys = mset xs"
proof -
  assume a: "rotate_counterclockwise xs = Inr ys"
  then have ne: "xs \<noteq> []" and ys: "ys = last xs # butlast xs"
    by (auto simp: rotate_counterclockwise_def split: if_splits)
  have "mset (butlast xs @ [last xs]) = mset xs" using ne by simp
  then show ?thesis using ys by simp
qed



text \<open>What the loop leaves: only the list has changed, and only in its order.\<close>

lemma step_loop_frame:
  assumes "\<And>xs ys. rot xs = Inr ys \<Longrightarrow> mset ys = mset xs"
  shows "step_loop os_max rot is c = (c', tr, r) \<Longrightarrow>
         c' = c\<lparr>states := states c'\<rparr> \<and> mset (states c') = mset (states c)"
proof (induction "is" arbitrary: c c' tr r)
  case Nil
  then show ?case by simp
next
  case (Cons i rest)
  show ?case
  proof (cases "rot (states c)")
    case (Inl e)
    with Cons.prems show ?thesis by simp
  next
    case (Inr xs)
    let ?c1 = "c\<lparr>states := xs\<rparr>"
    have m: "mset xs = mset (states c)" using assms Inr by blast
    show ?thesis
    proof (cases "energize ?c1")
      case (Inl e)
      with Cons.prems Inr m show ?thesis by auto
    next
      case w: (Inr w)
      show ?thesis
      proof (cases "sleep os_max (step_time ?c1)")
        case (Inl e)
        with Cons.prems Inr w m show ?thesis by auto
      next
        case d: (Inr d)
        obtain c2 tr2 r2 where l: "step_loop os_max rot rest ?c1 = (c2, tr2, r2)"
          by (cases "step_loop os_max rot rest ?c1") auto
        from Cons.IH [OF l] have "c2 = ?c1\<lparr>states := states c2\<rparr>" "mset (states c2) = mset xs"
          by simp_all
        moreover have "c' = c2" using Cons.prems Inr w d l by simp
        ultimately show ?thesis using m by simp
      qed
    qed
  qed
qed






text \<open>
  Delays that \<open>time.sleep\<close> refuses: ten thousand million seconds do not fit the
  nanosecond count, and a method called with such a step delay stops at its first sleep,
  after the rotation and the write of the first step and before any off write.
\<close>

lemma sleep_too_long: "sleep os_max 10000000000 = Inl OverflowError"
  by (simp add: sleep_def nanoseconds_def)

lemma sleep_negative: "sleep os_max (- 1) = Inl ValueError"
  by (simp add: sleep_def nanoseconds_def)

lemma step_clockwise_too_long:
  "step_clockwise os_max 1 (motor_1\<lparr>step_time := 10000000000\<rparr>) =
     (motor_1\<lparr>step_time := 10000000000, states := [0xa, 0x9, 0x5, 0x6]\<rparr>,
      [Write_to_DIO 0x60 0xf0, Write_to_DIO 0xa0 0xf0], Some OverflowError)"
  by (simp add: step_clockwise_def step_def range_py_1 energize_def write_to_DIO_def
      lshift_def sleep_too_long rotate_clockwise_def motor_1_def)

section \<open>The claims\<close>



lemma init_ok:
  "conn \<noteq> 0 \<Longrightarrow> 0 \<le> nib \<Longrightarrow>
   init conn pt nib st se =
     ([Check_connection,
       Set_DIO_to_output (push_bit (nat (4 * nib)) 0xf) (push_bit (nat (4 * nib)) 0xf)],
      Inr (if pt = ''ptype''
           then \<lparr>nibble = nib, step_time = st, settle_time = se,
                 states = [0x9, 0x5, 0x6, 0xa], off = 0xf\<rparr>
           else \<lparr>nibble = nib, step_time = st, settle_time = se,
                 states = [0x6, 0xa, 0x9, 0x5], off = 0x0\<rparr>))"
  by (simp add: init_def lshift_def)

lemma init_Inr:
  "init conn pt nib st se = (tr, Inr c) \<Longrightarrow>
   conn \<noteq> 0 \<and> 0 \<le> nib \<and> nibble c = nib \<and> step_time c = st \<and> settle_time c = se \<and>
   length (states c) = 4"
  by (auto simp: init_def lshift_def split: if_splits)

text \<open>
  C2. With a responding device and a nibble that is not negative, construction under the
  flag \<open>"ntype"\<close> gives the phase cycle \<open>[0x6, 0xa, 0x9, 0x5]\<close> and the off pattern \<open>0x0\<close>,
  and under \<open>"ptype"\<close> the phase cycle \<open>[0x9, 0x5, 0x6, 0xa]\<close> and the off pattern \<open>0xf\<close>.
\<close>

theorem polarity_selection:
  assumes "conn \<noteq> 0" and "0 \<le> nib"
  shows "(\<exists>c. snd (init conn ''ntype'' nib st se) = Inr c \<and>
              states c = [0x6, 0xa, 0x9, 0x5] \<and> off c = 0x0) \<and>
         (\<exists>c. snd (init conn ''ptype'' nib st se) = Inr c \<and>
              states c = [0x9, 0x5, 0x6, 0xa] \<and> off c = 0xf)"
  using assms by (simp add: init_ok)

theorem polarity_selection_witness:
  "(1::int) \<noteq> 0 \<and> (0::int) \<le> 1 \<and>
   (\<exists>c. snd (init 1 ''ntype'' 1 (1 / 10) (1 / 10)) = Inr c \<and>
        states c = [0x6, 0xa, 0x9, 0x5] \<and> off c = 0x0) \<and>
   (\<exists>c. snd (init 1 ''ptype'' 1 (1 / 10) (1 / 10)) = Inr c \<and>
        states c = [0x9, 0x5, 0x6, 0xa] \<and> off c = 0xf)"
  using polarity_selection [of 1 1 "1 / 10" "1 / 10"] by simp

text \<open>
  C10. The constructor tests the flag against \<open>"ptype"\<close> only: under any other string, with
  a responding device and a nibble that is not negative, it builds the n-type object, phase
  cycle \<open>[0x6, 0xa, 0x9, 0x5]\<close> and off pattern \<open>0x0\<close>, and raises nothing.
\<close>

theorem polarity_default:
  assumes "pt \<noteq> ''ptype''" and "conn \<noteq> 0" and "0 \<le> nib"
  shows "init conn pt nib st se =
           ([Check_connection,
             Set_DIO_to_output (push_bit (nat (4 * nib)) 0xf) (push_bit (nat (4 * nib)) 0xf)],
            Inr \<lparr>nibble = nib, step_time = st, settle_time = se,
                 states = [0x6, 0xa, 0x9, 0x5], off = 0x0\<rparr>)"
  using assms by (simp add: init_ok)

theorem polarity_default_witness:
  "''p-type'' \<noteq> ''ptype'' \<and> (1::int) \<noteq> 0 \<and> (0::int) \<le> 2 \<and>
   init 1 ''p-type'' 2 (1 / 10) (1 / 10) =
     ([Check_connection, Set_DIO_to_output 0xf00 0xf00],
      Inr \<lparr>nibble = 2, step_time = 1 / 10, settle_time = 1 / 10,
           states = [0x6, 0xa, 0x9, 0x5], off = 0x0\<rparr>)"
  using polarity_default [of "''p-type''" 1 2 "1 / 10" "1 / 10"] by simp

lemma step_loop_no_Error:
  "step_loop os_max rot is c = (c', tr, Some e) \<Longrightarrow>
   (\<And>xs e'. rot xs = Inl e' \<Longrightarrow> e' = IndexError) \<Longrightarrow>
   e \<in> {IndexError, ValueError, OverflowError, OSError}"
proof (induction "is" arbitrary: c c' tr)
  case Nil
  then show ?case by simp
next
  case (Cons i rest)
  show ?case
  proof (cases "rot (states c)")
    case (Inl e')
    with Cons.prems show ?thesis by auto
  next
    case (Inr xs)
    let ?c1 = "c\<lparr>states := xs\<rparr>"
    show ?thesis
    proof (cases "energize ?c1")
      case (Inl e')
      then have "e' \<in> {IndexError, ValueError, OverflowError, OSError}"
        by (auto simp: energize_def write_to_DIO_def lshift_def split: list.splits if_splits)
      with Cons.prems(1) Inr Inl show ?thesis by simp
    next
      case w: (Inr w)
      show ?thesis
      proof (cases "sleep os_max (step_time ?c1)")
        case (Inl e')
        then have "e' \<in> {IndexError, ValueError, OverflowError, OSError}"
          using sleep_Inl [of os_max _ e'] by auto
        with Cons.prems(1) Inr w Inl show ?thesis by simp
      next
        case d: (Inr d)
        obtain c2 tr2 r2 where l: "step_loop os_max rot rest ?c1 = (c2, tr2, r2)"
          by (cases "step_loop os_max rot rest ?c1") auto
        with Cons.prems(1) Inr w d have "r2 = Some e" by simp
        with l Cons.IH [of ?c1 c2 tr2] Cons.prems(2) show ?thesis by blast
      qed
    qed
  qed
qed

lemma step_no_Error:
  assumes "step os_max rot steps c = (c', tr, Some e)"
    and "\<And>xs e'. rot xs = Inl e' \<Longrightarrow> e' = IndexError"
  shows "e \<in> {IndexError, ValueError, OverflowError, OSError}"
proof (cases "energize c")
  case (Inl e')
  then have "e' \<in> {IndexError, ValueError, OverflowError, OSError}"
    by (auto simp: energize_def write_to_DIO_def lshift_def split: list.splits if_splits)
  with assms(1) Inl show ?thesis by (simp add: step_def)
next
  case w: (Inr w)
  obtain c1 tr1 r1 where l: "step_loop os_max rot (range_py steps) c = (c1, tr1, r1)"
    by (cases "step_loop os_max rot (range_py steps) c") auto
  show ?thesis
  proof (cases r1)
    case (Some e1)
    with assms(1) w l have "e1 = e" by (simp add: step_def)
    with l Some have "step_loop os_max rot (range_py steps) c = (c1, tr1, Some e)" by simp
    from step_loop_no_Error [OF this assms(2)] show ?thesis .
  next
    case None
    show ?thesis
    proof (cases "sleep os_max (settle_time c1)")
      case (Inl e')
      then have "e' \<in> {IndexError, ValueError, OverflowError, OSError}"
          using sleep_Inl [of os_max _ e'] by auto
      with assms(1) w l None Inl show ?thesis by (simp add: step_def)
    next
      case d: (Inr d)
      show ?thesis
      proof (cases "write_to_DIO (off c1) (nibble c1)")
        case (Inl e')
        then have "e' \<in> {IndexError, ValueError, OverflowError, OSError}"
          by (auto simp: write_to_DIO_def lshift_def split: if_splits)
        with assms(1) w l None d Inl show ?thesis by (simp add: step_def)
      next
        case (Inr w2)
        with assms(1) w l None d show ?thesis by (simp add: step_def)
      qed
    qed
  qed
qed

lemma do_call_no_Error:
  "do_call os_max x c = (c', tr, Some e) \<Longrightarrow>
   e \<in> {IndexError, ValueError, OverflowError, OSError}"
proof (cases x)
  case (Step_clockwise n)
  assume "do_call os_max x c = (c', tr, Some e)"
  with Step_clockwise have "step os_max rotate_clockwise n c = (c', tr, Some e)"
    by (simp add: step_clockwise_def)
  then show ?thesis
    by (rule step_no_Error) (simp add: rotate_clockwise_def split: list.splits)
next
  case (Step_counterclockwise n)
  assume "do_call os_max x c = (c', tr, Some e)"
  with Step_counterclockwise have "step os_max rotate_counterclockwise n c = (c', tr, Some e)"
    by (simp add: step_counterclockwise_def)
  then show ?thesis
    by (rule step_no_Error) (simp add: rotate_counterclockwise_def split: if_splits)
next
  case Turn_power_off
  assume "do_call os_max x c = (c', tr, Some e)"
  with Turn_power_off show ?thesis
    by (auto simp: turn_power_off_def write_to_DIO_def lshift_def split: if_splits)
qed

text \<open>
  C7. When \<open>check_connection\<close> returns zero the constructor raises \<open>Error\<close> with the
  not-responding message after that one call to the device: \<open>set_DIO_to_output\<close> is not
  called and no object is returned. The constructor raises this exception in no other
  case, and no method raises it.
\<close>

theorem unreachable_device:
  "init 0 pt nib st se = ([Check_connection], Inl (Error not_responding)) \<and>
   filter is_set_DIO (fst (init 0 pt nib st se)) = [] \<and>
   (snd (init conn pt nib st se) = Inl (Error msg) \<longleftrightarrow> conn = 0 \<and> msg = not_responding) \<and>
   snd (snd (do_call os_max x c)) \<noteq> Some (Error msg)"
proof -
  have 1: "init 0 pt nib st se = ([Check_connection], Inl (Error not_responding))"
    by (simp add: init_def)
  have 2: "snd (init conn pt nib st se) = Inl (Error msg) \<longleftrightarrow> conn = 0 \<and> msg = not_responding"
    by (auto simp: init_def lshift_def split: if_splits)
  have 3: "snd (snd (do_call os_max x c)) \<noteq> Some (Error msg)"
  proof
    assume a: "snd (snd (do_call os_max x c)) = Some (Error msg)"
    obtain c' tr r where o: "do_call os_max x c = (c', tr, r)" by (cases "do_call os_max x c") auto
    with a have "do_call os_max x c = (c', tr, Some (Error msg))" by simp
    from do_call_no_Error [OF this] show False by simp
  qed
  from 1 2 3 show ?thesis by simp
qed

theorem unreachable_device_witness:
  "init 0 ''ntype'' 1 (1 / 10) (1 / 10) = ([Check_connection], Inl (Error not_responding)) \<and>
   snd (init 1 ''ntype'' 1 (1 / 10) (1 / 10)) \<noteq> Inl (Error not_responding) \<and>
   snd (snd (do_call os_max_1 (Step_clockwise 4) motor_1)) \<noteq> Some (Error not_responding)"
  using unreachable_device [where pt = "''ntype''" and nib = 1 and st = "1 / 10"
      and se = "1 / 10" and conn = 1 and msg = not_responding and os_max = os_max_1
      and x = "Step_clockwise 4" and c = motor_1]
  by simp

text \<open>
  C8. Under the module's flag \<open>"ntype"\<close>, constructing on nibble 0 with a responding device
  calls \<open>set_DIO_to_output\<close> with mask \<open>0xf\<close> and initial value \<open>0xf\<close>, while the off
  pattern of the object built is \<open>0x0\<close>: \<open>turn_power_off\<close> writes \<open>0x0\<close> under the same
  mask. The initial value is the mask, and it is not the off pattern at the nibble's
  offset.
\<close>

theorem init_ntype_initial_value:
  "init 1 ''ntype'' 0 (1 / 10) (1 / 10) =
     ([Check_connection, Set_DIO_to_output 0xf 0xf],
      Inr \<lparr>nibble = 0, step_time = 1 / 10, settle_time = 1 / 10,
           states = [0x6, 0xa, 0x9, 0x5], off = 0x0\<rparr>) \<and>
   turn_power_off \<lparr>nibble = 0, step_time = 1 / 10, settle_time = 1 / 10,
                   states = [0x6, 0xa, 0x9, 0x5], off = 0x0\<rparr> =
     (\<lparr>nibble = 0, step_time = 1 / 10, settle_time = 1 / 10,
       states = [0x6, 0xa, 0x9, 0x5], off = 0x0\<rparr>, [Write_to_DIO 0x0 0xf], None) \<and>
   lshift (off \<lparr>nibble = 0, step_time = 1 / 10, settle_time = 1 / 10,
               states = [0x6, 0xa, 0x9, 0x5], off = 0x0\<rparr>) (4 * 0) \<noteq> Inr 0xf"
  by (simp add: init_def turn_power_off_def write_to_DIO_def lshift_def)



text \<open>
  C5. A controller constructed on nibble 1 under the flag \<open>"ntype"\<close> with both delays zero
  is back at the phase cycle \<open>[0x6, 0xa, 0x9, 0x5]\<close> after \<open>step_clockwise(4)\<close>, and the
  last call of the method is the write of value \<open>0x00\<close> under mask \<open>0xf0\<close>.
\<close>

theorem full_cycle_scenario:
  "init 1 ''ntype'' 1 0 0 =
     ([Check_connection, Set_DIO_to_output 0xf0 0xf0],
      Inr \<lparr>nibble = 1, step_time = 0, settle_time = 0,
           states = [0x6, 0xa, 0x9, 0x5], off = 0x0\<rparr>) \<and>
   step_clockwise os_max 4 \<lparr>nibble = 1, step_time = 0, settle_time = 0,
                     states = [0x6, 0xa, 0x9, 0x5], off = 0x0\<rparr> =
     (\<lparr>nibble = 1, step_time = 0, settle_time = 0,
       states = [0x6, 0xa, 0x9, 0x5], off = 0x0\<rparr>,
      [Write_to_DIO 0x60 0xf0,
       Write_to_DIO 0xa0 0xf0, Sleep 0,
       Write_to_DIO 0x90 0xf0, Sleep 0,
       Write_to_DIO 0x50 0xf0, Sleep 0,
       Write_to_DIO 0x60 0xf0, Sleep 0,
       Sleep 0,
       Write_to_DIO 0x00 0xf0], None)"
proof -
  have r: "range_py 4 = [0, 1, 2, 3]"
    by (simp add: range_py_def upto_rec1)
  show ?thesis
    by (simp add: init_def step_clockwise_def step_def r energize_def write_to_DIO_def
        lshift_def sleep_0 rotate_clockwise_def)
qed





text \<open>What a method leaves, whether or not it has raised.\<close>

lemma step_frame:
  assumes "\<And>xs ys. rot xs = Inr ys \<Longrightarrow> mset ys = mset xs"
    and "step os_max rot steps c = (c', tr, r)"
  shows "c' = c\<lparr>states := states c'\<rparr> \<and> mset (states c') = mset (states c)"
proof (cases "energize c")
  case (Inl e)
  with assms(2) show ?thesis by (simp add: step_def)
next
  case (Inr w)
  obtain c1 tr1 r1 where l: "step_loop os_max rot (range_py steps) c = (c1, tr1, r1)"
    by (cases "step_loop os_max rot (range_py steps) c") auto
  have "c' = c1"
    using assms(2) Inr l by (auto simp: step_def split: option.splits sum.splits)
  with step_loop_frame [of rot, OF assms(1) l] show ?thesis by simp
qed

lemma do_call_frame:
  assumes "do_call os_max x c = (c', tr, r)"
  shows "c' = c\<lparr>states := states c'\<rparr> \<and> mset (states c') = mset (states c)"
proof (cases x)
  case (Step_clockwise n)
  with assms have "step os_max rotate_clockwise n c = (c', tr, r)"
    by (simp add: step_clockwise_def)
  from step_frame [of rotate_clockwise, OF rotate_clockwise_mset this] show ?thesis .
next
  case (Step_counterclockwise n)
  with assms have "step os_max rotate_counterclockwise n c = (c', tr, r)"
    by (simp add: step_counterclockwise_def)
  from step_frame [of rotate_counterclockwise, OF rotate_counterclockwise_mset this]
  show ?thesis .
next
  case Turn_power_off
  with assms show ?thesis
    by (auto simp: turn_power_off_def split: sum.splits)
qed

lemma do_calls_frame:
  "do_calls os_max xs c = (c', tr) \<Longrightarrow>
   c' = c\<lparr>states := states c'\<rparr> \<and> mset (states c') = mset (states c)"
proof (induction xs arbitrary: c c' tr)
  case Nil
  then show ?case by simp
next
  case (Cons x xs)
  obtain c1 tr1 r1 where a: "do_call os_max x c = (c1, tr1, r1)"
    by (cases "do_call os_max x c") auto
  obtain c2 tr2 where b: "do_calls os_max xs c1 = (c2, tr2)"
    by (cases "do_calls os_max xs c1") auto
  from Cons.prems a b have e: "c' = c2" by simp
  from do_call_frame [OF a] have f1: "c1 = c\<lparr>states := states c1\<rparr>"
    and m1: "mset (states c1) = mset (states c)" by simp_all
  from Cons.IH [OF b] have f2: "c2 = c1\<lparr>states := states c2\<rparr>"
    and m2: "mset (states c2) = mset (states c1)" by simp_all
  have "c2 = c\<lparr>states := states c2\<rparr>"
    by (subst f2, subst f1) simp
  with e m1 m2 show ?case by simp
qed

text \<open>
  C3. After any sequence of \<open>step_clockwise\<close>, \<open>step_counterclockwise\<close> and
  \<open>turn_power_off\<close> calls on a constructed controller, whatever the step counts and
  whether or not a call has raised, the phase list has length 4 and the multiset of values
  it had at construction: the calls change the order of its elements only, and no other
  attribute of the object.
\<close>

theorem ring_invariant:
  assumes "init conn pt nib st se = (tr0, Inr c0)"
    and "do_calls os_max xs c0 = (c, tr)"
  shows "length (states c) = 4 \<and> mset (states c) = mset (states c0) \<and>
         c = c0\<lparr>states := states c\<rparr>"
proof -
  from init_Inr [OF assms(1)] have "length (states c0) = 4" by simp
  moreover from do_calls_frame [OF assms(2)]
  have f: "c = c0\<lparr>states := states c\<rparr>" and m: "mset (states c) = mset (states c0)"
    by simp_all
  moreover from m have "length (states c) = length (states c0)"
    by (rule mset_eq_length)
  ultimately show ?thesis by simp
qed

theorem ring_invariant_witness:
  "init 1 ''ntype'' 1 (1 / 10) (1 / 10) =
     ([Check_connection, Set_DIO_to_output 0xf0 0xf0], Inr motor_1) \<and>
   fst (do_calls os_max_1 script_1 motor_1) = motor_1\<lparr>states := [0x9, 0x5, 0x6, 0xa]\<rparr> \<and>
   length (states (fst (do_calls os_max_1 script_1 motor_1))) = 4 \<and>
   mset (states (fst (do_calls os_max_1 script_1 motor_1))) = mset (states motor_1)"
proof -
  have i: "init 1 ''ntype'' 1 (1 / 10) (1 / 10) =
     ([Check_connection, Set_DIO_to_output 0xf0 0xf0], Inr motor_1)"
    by (simp add: init_def lshift_def motor_1_def)
  have r: "range_py 3 = [0, 1, 2]" "range_py 1 = [0]"
    by (simp_all add: range_py_def upto_rec1)
  have d: "fst (do_calls os_max_1 script_1 motor_1) = motor_1\<lparr>states := [0x9, 0x5, 0x6, 0xa]\<rparr>"
    by (simp add: script_1_def motor_1_def step_clockwise_def step_counterclockwise_def
        turn_power_off_def step_def r energize_def write_to_DIO_def lshift_def sleep_tenth
        rotate_clockwise_def rotate_counterclockwise_def)
  obtain c tr where o: "do_calls os_max_1 script_1 motor_1 = (c, tr)"
    by (cases "do_calls os_max_1 script_1 motor_1") auto
  from ring_invariant [OF i o] i d o show ?thesis by simp
qed

text \<open>The lines a mask of the form \<open>0xf << k\<close> selects.\<close>

lemma bit_nibble_mask:
  "bit (word_of_int (push_bit k 0xf) :: 16 word) i \<longleftrightarrow> i < 16 \<and> k \<le> i \<and> i < k + 4"
proof -
  have e: "(0xf::int) = mask 4" by (simp add: mask_eq_exp_minus_1)
  have b: "bit (0xf::int) j \<longleftrightarrow> j < 4" for j
    by (subst e) (simp add: bit_mask_iff)
  show ?thesis
    by (auto simp: bit_word_of_int_iff bit_push_bit_iff b)
qed

lemma drive_outside:
  "\<not> bit (word_of_int m :: 16 word) i \<Longrightarrow> bit (drive v m d) i = bit d i"
  by (simp add: drive_def bit_or_iff bit_and_iff bit_not_iff) (auto dest: bit_imp_le_length)

lemma own_event_write: "write_to_DIO p nib = Inr w \<Longrightarrow> own_event nib w"
  by (auto simp: own_event_def dest: write_to_DIO_Inr)

lemma own_event_energize: "energize c = Inr w \<Longrightarrow> own_event (nibble c) w"
  by (auto simp: own_event_def dest: energize_Inr)

lemma own_event_sleep: "sleep os_max t = Inr d \<Longrightarrow> own_event nib d"
  by (auto simp: own_event_def dest: sleep_Inr)

lemma step_loop_events:
  "step_loop os_max rot is c = (c', tr, r) \<Longrightarrow> list_all (own_event (nibble c)) tr"
proof (induction "is" arbitrary: c c' tr r)
  case Nil
  then show ?case by simp
next
  case (Cons i rest)
  show ?case
  proof (cases "rot (states c)")
    case (Inl e)
    with Cons.prems show ?thesis by auto
  next
    case (Inr xs)
    let ?c1 = "c\<lparr>states := xs\<rparr>"
    show ?thesis
    proof (cases "energize ?c1")
      case (Inl e)
      with Cons.prems Inr show ?thesis by auto
    next
      case w: (Inr w)
      from own_event_energize [OF w] have ow: "own_event (nibble c) w" by simp
      show ?thesis
      proof (cases "sleep os_max (step_time ?c1)")
        case (Inl e)
        with Cons.prems Inr w ow show ?thesis by auto
      next
        case d: (Inr d)
        from own_event_sleep [OF d] have od: "own_event (nibble c) d" .
        obtain c2 tr2 r2 where l: "step_loop os_max rot rest ?c1 = (c2, tr2, r2)"
          by (cases "step_loop os_max rot rest ?c1") auto
        from Cons.IH [OF l] have "list_all (own_event (nibble c)) tr2" by simp
        moreover have "tr = w # d # tr2" using Cons.prems Inr w d l by simp
        ultimately show ?thesis using ow od by simp
      qed
    qed
  qed
qed

lemma step_loop_nibble: "step_loop os_max rot is c = (c', tr, r) \<Longrightarrow> nibble c' = nibble c"
proof (induction "is" arbitrary: c c' tr r)
  case Nil
  then show ?case by simp
next
  case (Cons i rest)
  show ?case
  proof (cases "rot (states c)")
    case (Inl e)
    with Cons.prems show ?thesis by simp
  next
    case (Inr xs)
    let ?c1 = "c\<lparr>states := xs\<rparr>"
    obtain c2 tr2 r2 where l: "step_loop os_max rot rest ?c1 = (c2, tr2, r2)"
      by (cases "step_loop os_max rot rest ?c1") auto
    from Cons.IH [OF l] have "nibble c2 = nibble c" by simp
    with Cons.prems Inr l show ?thesis
      by (auto simp: Let_def split: sum.splits)
  qed
qed

lemma step_events:
  assumes "step os_max rot steps c = (c', tr, r)"
  shows "list_all (own_event (nibble c)) tr"
proof (cases "energize c")
  case (Inl e)
  with assms show ?thesis by (simp add: step_def)
next
  case w: (Inr w)
  from own_event_energize [OF w] have ow: "own_event (nibble c) w" .
  obtain c1 tr1 r1 where l: "step_loop os_max rot (range_py steps) c = (c1, tr1, r1)"
    by (cases "step_loop os_max rot (range_py steps) c") auto
  from step_loop_events [OF l] have t1: "list_all (own_event (nibble c)) tr1" .
  show ?thesis
  proof (cases r1)
    case (Some e)
    with assms w l ow t1 show ?thesis by (auto simp: step_def)
  next
    case None
    show ?thesis
    proof (cases "sleep os_max (settle_time c1)")
      case (Inl e)
      with assms w l None ow t1 show ?thesis by (auto simp: step_def)
    next
      case d: (Inr d)
      from own_event_sleep [OF d] have od: "own_event (nibble c) d" .
      show ?thesis
      proof (cases "write_to_DIO (off c1) (nibble c1)")
        case (Inl e)
        with assms w l None d ow od t1 show ?thesis by (auto simp: step_def)
      next
        case (Inr w2)
        from own_event_write [OF Inr] have "own_event (nibble c1) w2" .
        moreover have "nibble c1 = nibble c"
          by (rule step_loop_nibble [OF l])
        ultimately show ?thesis
          using assms w l None d Inr ow od t1 by (auto simp: step_def)
      qed
    qed
  qed
qed

lemma do_call_events:
  assumes "do_call os_max x c = (c', tr, r)"
  shows "list_all (own_event (nibble c)) tr"
proof (cases x)
  case (Step_clockwise n)
  with assms have "step os_max rotate_clockwise n c = (c', tr, r)"
    by (simp add: step_clockwise_def)
  then show ?thesis by (rule step_events)
next
  case (Step_counterclockwise n)
  with assms have "step os_max rotate_counterclockwise n c = (c', tr, r)"
    by (simp add: step_counterclockwise_def)
  then show ?thesis by (rule step_events)
next
  case Turn_power_off
  with assms show ?thesis
    by (auto simp: turn_power_off_def split: sum.splits dest: own_event_write)
qed

lemma do_calls_events:
  "do_calls os_max xs c = (c', tr) \<Longrightarrow> list_all (own_event (nibble c)) tr"
proof (induction xs arbitrary: c c' tr)
  case Nil
  then show ?case by simp
next
  case (Cons x xs)
  obtain c1 tr1 r1 where a: "do_call os_max x c = (c1, tr1, r1)"
    by (cases "do_call os_max x c") auto
  obtain c2 tr2 where b: "do_calls os_max xs c1 = (c2, tr2)"
    by (cases "do_calls os_max xs c1") auto
  from do_call_frame [OF a] have "c1 = c\<lparr>states := states c1\<rparr>" by simp
  then have n: "nibble c1 = nibble c" by (cases c, cases c1) simp
  from Cons.IH [OF b] n have "list_all (own_event (nibble c)) tr2" by simp
  moreover from do_call_events [OF a] have "list_all (own_event (nibble c)) tr1" .
  moreover from Cons.prems a b have "tr = tr1 @ tr2" by simp
  ultimately show ?case by simp
qed

text \<open>Lines outside the nibble keep their level through the controller's own events.\<close>

lemma device_event_outside:
  assumes "own_event nib e" and "\<not> (4 * nat nib \<le> i \<and> i \<le> 4 * nat nib + 3)"
  shows "bit (device_event e d) i = bit d i"
proof (cases e)
  case (Write_to_DIO v m)
  with assms(1) have m: "0 \<le> nib" "m = push_bit (nat (4 * nib)) 0xf"
    by (simp_all add: own_event_def)
  have "nat (4 * nib) = 4 * nat nib" using m(1) by simp
  with assms(2) m(2) have "\<not> bit (word_of_int m :: 16 word) i"
    by (simp add: bit_nibble_mask) arith
  with Write_to_DIO show ?thesis by (simp add: drive_outside)
next
  case (Set_DIO_to_output m v)
  with assms(1) show ?thesis by (simp add: own_event_def)
next
  case Check_connection
  then show ?thesis by simp
next
  case (Sleep t)
  then show ?thesis by simp
qed

lemma device_events_outside:
  "list_all (own_event nib) tr \<Longrightarrow> \<not> (4 * nat nib \<le> i \<and> i \<le> 4 * nat nib + 3) \<Longrightarrow>
   bit (device_events tr d) i = bit d i"
proof (induction tr arbitrary: d)
  case Nil
  then show ?case by simp
next
  case (Cons e es)
  from Cons.prems have o: "own_event nib e" and r: "list_all (own_event nib) es"
    by simp_all
  have "bit (device_events es (device_event e d)) i = bit (device_event e d) i"
    by (rule Cons.IH [OF r Cons.prems(2)])
  also have "\<dots> = bit d i"
    by (rule device_event_outside [OF o Cons.prems(2)])
  finally show ?case by simp
qed

lemma own_event_mask:
  "list_all (own_event nib) tr \<Longrightarrow> Write_to_DIO v m \<in> set tr \<Longrightarrow>
   m = push_bit (nat (4 * nib)) 0xf"
  by (auto simp: list_all_iff own_event_def)

text \<open>
  C6. In any sequence of \<open>step_clockwise\<close>, \<open>step_counterclockwise\<close> and \<open>turn_power_off\<close>
  calls on a controller constructed with nibble \<open>n\<close>, every write sent to the device
  carries the mask \<open>0xf << (4 * n)\<close>, and, the device applying a write as the spec says it
  does, every line outside the positions \<open>4n\<close> to \<open>4n + 3\<close> has after the sequence the level
  it had before it.
\<close>

theorem masking_isolation:
  assumes "init conn pt nib st se = (tr0, Inr c0)"
    and "do_calls os_max xs c0 = (c, tr)"
  shows "(\<forall>v m. Write_to_DIO v m \<in> set tr \<longrightarrow> m = push_bit (nat (4 * nib)) 0xf) \<and>
         (\<forall>i. \<not> (4 * nat nib \<le> i \<and> i \<le> 4 * nat nib + 3) \<longrightarrow>
              bit (device_events tr d) i = bit d i)"
proof -
  from init_Inr [OF assms(1)] have n: "nibble c0 = nib" by simp
  from do_calls_events [OF assms(2)] n have e: "list_all (own_event nib) tr" by simp
  show ?thesis
    using own_event_mask [OF e] device_events_outside [OF e] by blast
qed

theorem masking_isolation_witness:
  "init 1 ''ntype'' 1 (1 / 10) (1 / 10) =
     ([Check_connection, Set_DIO_to_output 0xf0 0xf0], Inr motor_1) \<and>
   do_calls os_max_1 [Step_clockwise 1, Turn_power_off] motor_1 =
     (motor_1\<lparr>states := [0xa, 0x9, 0x5, 0x6]\<rparr>,
      [Write_to_DIO 0x60 0xf0, Write_to_DIO 0xa0 0xf0, Sleep (1 / 10), Sleep (1 / 10),
       Write_to_DIO 0x00 0xf0, Write_to_DIO 0x00 0xf0]) \<and>
   Write_to_DIO 0xa0 0xf0 \<in> set (snd (do_calls os_max_1 [Step_clockwise 1, Turn_power_off] motor_1)) \<and>
   (0xf0::int) = push_bit (nat (4 * 1)) 0xf \<and>
   \<not> (4 * nat 1 \<le> (9::nat) \<and> (9::nat) \<le> 4 * nat 1 + 3) \<and>
   bit (device_events (snd (do_calls os_max_1 [Step_clockwise 1, Turn_power_off] motor_1)) 0xabcd) 9 =
     bit (0xabcd :: 16 word) 9"
proof -
  have i: "init 1 ''ntype'' 1 (1 / 10) (1 / 10) =
     ([Check_connection, Set_DIO_to_output 0xf0 0xf0], Inr motor_1)"
    by (simp add: init_def lshift_def motor_1_def)
  have d: "do_calls os_max_1 [Step_clockwise 1, Turn_power_off] motor_1 =
     (motor_1\<lparr>states := [0xa, 0x9, 0x5, 0x6]\<rparr>,
      [Write_to_DIO 0x60 0xf0, Write_to_DIO 0xa0 0xf0, Sleep (1 / 10), Sleep (1 / 10),
       Write_to_DIO 0x00 0xf0, Write_to_DIO 0x00 0xf0])"
    by (simp add: motor_1_def step_clockwise_def turn_power_off_def step_def range_py_1
        energize_def write_to_DIO_def lshift_def sleep_tenth rotate_clockwise_def)
  have o: "\<not> (4 * nat 1 \<le> (9::nat) \<and> (9::nat) \<le> 4 * nat 1 + 3)" by simp
  from masking_isolation [OF i d, of "0xabcd"] o
  have "bit (device_events (snd (do_calls os_max_1 [Step_clockwise 1, Turn_power_off] motor_1)) 0xabcd) 9 =
     bit (0xabcd :: 16 word) 9"
    unfolding d snd_conv by blast
  moreover have w: "Write_to_DIO 0xa0 0xf0 \<in>
      set (snd (do_calls os_max_1 [Step_clockwise 1, Turn_power_off] motor_1))"
    unfolding d by simp
  moreover from masking_isolation [OF i d, of "0xabcd"] w
  have "(0xf0::int) = push_bit (nat (4 * 1)) 0xf"
    unfolding d snd_conv by blast
  ultimately show ?thesis using i d o by blast
qed

end
